theory Spec2Isabelle
  imports Main "HOL-Library.Word" "HOL-Library.AList"
begin

section \<open>Outcomes, errors and the outside world\<close>

text \<open>
  A Go call either returns, or panics, or dies of a fatal error of the runtime. A panic
  unwinds the whole program, since nothing in \<^verbatim>\<open>main.go\<close> recovers; a fatal error,
  such as \<^verbatim>\<open>out of memory\<close>, ends the program at once and cannot be recovered. Go's \<^verbatim>\<open>error\<close> values are ordinary return values and
  are modelled as data: \<open>ErrSyntax\<close> and \<open>ErrRange\<close> are the two failures of
  \<^verbatim>\<open>strconv.Atoi\<close>, \<open>ErrorString\<close> is the result of \<^verbatim>\<open>fmt.Errorf\<close>. The program
  calls \<^verbatim>\<open>Error()\<close> on the errors of the generators only, which are of the last kind;
  for the other two \<open>Error\<close> gives the text of the library's sentinel error.
\<close>

datatype 'a outcome = Returns 'a | Panics string | Fatal string

datatype error = ErrSyntax | ErrRange | ErrorString string

fun Error :: "error \<Rightarrow> string" where
  "Error ErrSyntax = ''invalid syntax''"
| "Error ErrRange = ''value out of range''"
| "Error (ErrorString m) = m"

text \<open>
  The program's sources of randomness are external. \<open>randTape\<close> lists the raw values
  behind the successive calls of \<^verbatim>\<open>rand.Intn\<close> in a run, \<open>uuidTape\<close> the successive
  results of \<^verbatim>\<open>uuid.New().String()\<close>. So is the memory of the host: \<open>memTape\<close> lists,
  for the successive allocations whose size a token chooses, the number of bytes the
  runtime can obtain at that moment. The tapes are arbitrary, so every possible run is
  covered; \<^verbatim>\<open>rand.Seed\<close> only changes which tape the run sees and is therefore not a
  step of the model.
\<close>

record world =
  randTape :: "nat \<Rightarrow> nat"
  uuidTape :: "nat \<Rightarrow> string"
  memTape :: "nat \<Rightarrow> nat"

text \<open>Go's \<^verbatim>\<open>int\<close> on a 64-bit platform: two's complement, wrapping silently.\<close>

definition maxInt :: int where
  "maxInt = 2 ^ 63 - 1"

definition minInt :: int where
  "minInt = - (2 ^ 63)"

definition wrap :: "int \<Rightarrow> int" where
  "wrap x = (x + 2 ^ 63) mod 2 ^ 64 - 2 ^ 63"

text \<open>\<^verbatim>\<open>rand.Intn(n)\<close>: panics unless \<open>n > 0\<close>, otherwise a value in \<open>[0, n)\<close>.\<close>

definition Intn :: "int \<Rightarrow> world \<Rightarrow> (int \<times> world) outcome" where
  "Intn n w =
     (if n \<le> 0 then Panics ''invalid argument to Intn''
      else Returns (int (randTape w 0) mod n, w\<lparr>randTape := (\<lambda>i. randTape w (Suc i))\<rparr>))"

section \<open>Library functions on strings\<close>

definition HasPrefix :: "string \<Rightarrow> string \<Rightarrow> bool" where
  "HasPrefix s p = (take (length p) s = p)"

definition HasSuffix :: "string \<Rightarrow> string \<Rightarrow> bool" where
  "HasSuffix s suf = (length suf \<le> length s \<and> drop (length s - length suf) s = suf)"

definition TrimSuffix :: "string \<Rightarrow> string \<Rightarrow> string" where
  "TrimSuffix s suf = (if HasSuffix s suf then take (length s - length suf) s else s)"

text \<open>\<^verbatim>\<open>strings.Split(s, sep)\<close> for a separator of one byte, as the program calls it.\<close>

fun Split :: "string \<Rightarrow> char \<Rightarrow> string list" where
  "Split [] sep = [[]]"
| "Split (c # cs) sep =
     (if c = sep then [] # Split cs sep
      else (case Split cs sep of [] \<Rightarrow> [[c]] | p # ps \<Rightarrow> (c # p) # ps))"

definition isDigit :: "char \<Rightarrow> bool" where
  "isDigit c = (c \<in> set ''0123456789'')"

definition digitVal :: "char \<Rightarrow> nat" where
  "digitVal c = of_char c - 48"

text \<open>The number a string of decimal digits denotes.\<close>

definition digitsVal :: "string \<Rightarrow> nat" where
  "digitsVal ds = foldl (\<lambda>n c. 10 * n + digitVal c) 0 ds"

text \<open>
  \<^verbatim>\<open>strconv.Atoi\<close>: an optional sign and at least one decimal digit, within the range
  of \<^verbatim>\<open>int\<close>. The scan reports a range error as soon as the digits read so far exceed
  64 bits, before it looks at later bytes; a range error returns the nearest bound.
\<close>

definition Atoi :: "string \<Rightarrow> int \<times> error option" where
  "Atoi s =
     (let neg = (s \<noteq> [] \<and> hd s = CHR ''-'');
          body = (if s \<noteq> [] \<and> (hd s = CHR ''+'' \<or> hd s = CHR ''-'') then tl s else s);
          ds = takeWhile isDigit body
      in if body = [] then (0, Some ErrSyntax)
         else if 2 ^ 64 \<le> digitsVal ds then (if neg then minInt else maxInt, Some ErrRange)
         else if ds \<noteq> body then (0, Some ErrSyntax)
         else if neg then
           (if 2 ^ 63 < digitsVal ds then (minInt, Some ErrRange) else (- int (digitsVal ds), None))
         else
           (if 2 ^ 63 \<le> digitsVal ds then (maxInt, Some ErrRange) else (int (digitsVal ds), None)))"

section \<open>The integer generator\<close>

text \<open>
  \<^verbatim>\<open>regexp.MustCompile(`^\$INT\((\d+):(\d+)\)$`).FindStringSubmatch(value)\<close>: the empty
  slice when the value does not match, otherwise the whole match and the two groups. The
  pattern is anchored at both ends, \<^verbatim>\<open>\d\<close> is an ASCII digit, and the byte after each
  group is not a digit, so the greedy groups are the maximal runs of digits.
\<close>

definition FindStringSubmatch :: "string \<Rightarrow> string list" where
  "FindStringSubmatch value =
     (if HasPrefix value ''$INT('' then
        (let r1 = drop 5 value; g1 = takeWhile isDigit r1; r2 = dropWhile isDigit r1 in
         if g1 = [] \<or> r2 = [] \<or> hd r2 \<noteq> CHR '':'' then []
         else
           (let r3 = tl r2; g2 = takeWhile isDigit r3; r4 = dropWhile isDigit r3 in
            if g2 = [] \<or> r4 \<noteq> '')'' then [] else [value, g1, g2]))
      else [])"

definition getInt :: "string \<Rightarrow> world \<Rightarrow> ((int \<times> error option) \<times> world) outcome" where
  "getInt value w =
     (let matches = FindStringSubmatch value in
      if length matches = 0 then
        (case Intn 10000 w of
           Panics m \<Rightarrow> Panics m
         | Fatal m \<Rightarrow> Fatal m
         | Returns (v, w') \<Rightarrow> Returns ((v, None), w'))
      else
        (let (lower, err1) = Atoi (matches ! 1);
             (upper, err2) = Atoi (matches ! 2)
         in if err1 \<noteq> None \<or> err2 \<noteq> None \<or> lower > upper then
              Returns ((0, Some (ErrorString ''invalid INT range'')), w)
            else
              (case Intn (wrap (upper - lower + 1)) w of
                 Panics m \<Rightarrow> Panics m
               | Fatal m \<Rightarrow> Fatal m
               | Returns (v, w') \<Rightarrow> Returns ((wrap (v + lower), None), w'))))"

section \<open>The string generator\<close>

definition charset :: string where
  "charset = ''abcdefghijklmnopqrstuvwxyzABCDEFGHIJKLMNOPQRSTUVWXYZ0123456789''"

text \<open>
  The runtime's allocator, asked for \<open>n\<close> bytes. The heap spans less than \<^verbatim>\<open>maxAlloc\<close>
  bytes in all (\<open>2 ^ 48\<close> on the 64-bit platforms), so a request of \<^verbatim>\<open>maxAlloc\<close> bytes
  is never met; a smaller request is met when the host has the bytes, which the world
  decides. A request that is not met ends the program with the fatal error
  \<^verbatim>\<open>out of memory\<close>.
\<close>

definition maxAlloc :: int where
  "maxAlloc = 2 ^ 48"

definition mallocgc :: "nat \<Rightarrow> world \<Rightarrow> world outcome" where
  "mallocgc n w =
     (if maxAlloc \<le> int n \<or> memTape w 0 < n then Fatal ''out of memory''
      else Returns (w\<lparr>memTape := (\<lambda>i. memTape w (Suc i))\<rparr>))"

text \<open>The loop \<^verbatim>\<open>for i := range result { result[i] = charset[rand.Intn(len(charset))] }\<close>.\<close>

primrec fillBytes :: "nat \<Rightarrow> world \<Rightarrow> (string \<times> world) outcome" where
  "fillBytes 0 w = Returns ([], w)"
| "fillBytes (Suc k) w =
     (case Intn (int (length charset)) w of
        Panics m \<Rightarrow> Panics m
      | Fatal m \<Rightarrow> Fatal m
      | Returns (i, w') \<Rightarrow>
          (case fillBytes k w' of
             Panics m \<Rightarrow> Panics m
           | Fatal m \<Rightarrow> Fatal m
           | Returns (cs, w'') \<Rightarrow> Returns (charset ! nat i # cs, w'')))"

text \<open>
  \<^verbatim>\<open>make([]byte, n)\<close> panics when \<open>n\<close> is negative or larger than \<^verbatim>\<open>maxAlloc\<close>, and
  allocates the slice otherwise; \<^verbatim>\<open>string(result)\<close> allocates the string, of the same
  size.
\<close>

definition getRandomStrNlen :: "int \<Rightarrow> world \<Rightarrow> (string \<times> world) outcome" where
  "getRandomStrNlen n w =
     (if n < 0 \<or> maxAlloc < n then Panics ''runtime error: makeslice: len out of range''
      else
        (case mallocgc (nat n) w of
           Panics m \<Rightarrow> Panics m
         | Fatal m \<Rightarrow> Fatal m
         | Returns w1 \<Rightarrow>
             (case fillBytes (nat n) w1 of
                Panics m \<Rightarrow> Panics m
              | Fatal m \<Rightarrow> Fatal m
              | Returns (result, w2) \<Rightarrow>
                  (case mallocgc (nat n) w2 of
                     Panics m \<Rightarrow> Panics m
                   | Fatal m \<Rightarrow> Fatal m
                   | Returns w3 \<Rightarrow> Returns (result, w3)))))"

definition randomString :: "string \<Rightarrow> world \<Rightarrow> ((string \<times> error option) \<times> world) outcome" where
  "randomString value w =
     (let parts = Split value (CHR ''('');
          len = (if length parts = 2 then
                   (case Atoi (TrimSuffix (parts ! 1) '')'') of
                      (l, None) \<Rightarrow> l
                    | (l, Some e) \<Rightarrow> 10)
                 else 10)
      in case getRandomStrNlen len w of
           Panics m \<Rightarrow> Panics m
         | Fatal m \<Rightarrow> Fatal m
         | Returns (r, w') \<Rightarrow> Returns ((r, None), w'))"

section \<open>Values, maps and the store\<close>

text \<open>
  What \<^verbatim>\<open>interface{}\<close> holds in this program: the values \<^verbatim>\<open>json.Unmarshal\<close> builds
  (\<^verbatim>\<open>nil\<close>, \<^verbatim>\<open>bool\<close>, \<^verbatim>\<open>float64\<close> as its 64 bits, \<^verbatim>\<open>string\<close>,
  \<^verbatim>\<open>[]interface{}\<close>, \<^verbatim>\<open>map[string]interface{}\<close>) and the \<^verbatim>\<open>int\<close> of the integer
  generator. A Go map is a reference: \<open>VMap a\<close> is the map object at address \<open>a\<close> of the
  store, so two values can share one object. The object is an association list; its order
  is the order in which \<^verbatim>\<open>range\<close> visits the entries, which Go leaves open, and the
  theorems hold for every order. A read takes the first entry with the key and a write
  replaces it, or appends a new entry. Slices are never written by the program and are
  values.
\<close>

type_synonym addr = nat

datatype val =
    VNil
  | VBool bool
  | VFloat64 "64 word"
  | VString string
  | VInt int
  | VSlice "val list"
  | VMap addr

type_synonym gomap = "(string \<times> val) list"

record state =
  heap :: "addr \<Rightarrow> gomap"
  nxt :: addr
  env :: world
  stdout :: "string list"

text \<open>\<^verbatim>\<open>m[key] = v\<close> on the map object at address \<open>a\<close>.\<close>

definition mapassign :: "addr \<Rightarrow> string \<Rightarrow> val \<Rightarrow> state \<Rightarrow> state" where
  "mapassign a key v s = s\<lparr>heap := (heap s)(a := AList.update key v (heap s a))\<rparr>"

section \<open>Console\<close>

definition ColorRed :: string where
  "ColorRed = CHR 0x1B # ''[31m''"

definition ColorReset :: string where
  "ColorReset = CHR 0x1B # ''[0m''"

text \<open>\<^verbatim>\<open>fmt.Println\<close> separates its operands by spaces; every element of \<open>stdout\<close> is a line.\<close>

definition colorize :: "string \<Rightarrow> string \<Rightarrow> state \<Rightarrow> state" where
  "colorize color message s =
     s\<lparr>stdout := stdout s @ [color @ '' '' @ message @ '' '' @ ColorReset]\<rparr>"

section \<open>Token matcher and substitution\<close>

text \<open>
  The three implementations of the interface \<^verbatim>\<open>Updater\<close> and the table \<^verbatim>\<open>updaters\<close>.
  The identifier comes from the world; a failure of the system's entropy source, on which
  \<^verbatim>\<open>uuid.New\<close> panics, is outside the model.
\<close>

datatype Updater = UUIDUpdater | IntUpdater | CharUpdater

definition updaters :: "string \<rightharpoonup> Updater" where
  "updaters = [''uuid'' \<mapsto> UUIDUpdater, ''int'' \<mapsto> IntUpdater, ''char'' \<mapsto> CharUpdater]"

fun Update :: "Updater \<Rightarrow> string \<Rightarrow> world \<Rightarrow> ((val \<times> error option) \<times> world) outcome" where
  "Update UUIDUpdater value w =
     Returns ((VString (uuidTape w 0), None), w\<lparr>uuidTape := (\<lambda>i. uuidTape w (Suc i))\<rparr>)"
| "Update IntUpdater value w =
     (case getInt value w of
        Panics m \<Rightarrow> Panics m
      | Fatal m \<Rightarrow> Fatal m
      | Returns ((v, err), w') \<Rightarrow> Returns ((VInt v, err), w'))"
| "Update CharUpdater value w =
     (case randomString value w of
        Panics m \<Rightarrow> Panics m
      | Fatal m \<Rightarrow> Fatal m
      | Returns ((r, err), w') \<Rightarrow> Returns ((VString r, err), w'))"

text \<open>The result \<open>None\<close> is Go's \<^verbatim>\<open>nil\<close> interface.\<close>

definition getUpdater :: "string \<Rightarrow> Updater option" where
  "getUpdater value =
     (if HasPrefix value ''$UUID'' then updaters ''uuid''
      else if HasPrefix value ''$INT'' then updaters ''int''
      else if HasPrefix value ''$CHAR'' then updaters ''char''
      else None)"

definition parseAndUpdate :: "string \<Rightarrow> string \<Rightarrow> addr \<Rightarrow> addr \<Rightarrow> state \<Rightarrow> state outcome" where
  "parseAndUpdate key value data copiedData s =
     (case getUpdater value of
        None \<Rightarrow> Returns s
      | Some updater \<Rightarrow>
          (case Update updater value (env s) of
             Panics m \<Rightarrow> Panics m
           | Fatal m \<Rightarrow> Fatal m
           | Returns ((newVal, err), w') \<Rightarrow>
               (case err of
                  None \<Rightarrow>
                    Returns (mapassign copiedData key newVal
                              (mapassign data key newVal (s\<lparr>env := w'\<rparr>)))
                | Some e \<Rightarrow>
                    Returns (colorize ColorRed
                              (''Error updating key: '' @ key @ '', value: '' @ value
                                 @ '', err: '' @ Error e)
                              (s\<lparr>env := w'\<rparr>)))))"

section \<open>Copy and walk\<close>

text \<open>
  A \<^verbatim>\<open>range\<close> loop over a map is a recursion over the keys the map has when the loop
  starts; each step reads the entry the map holds at that moment.
\<close>

primrec copyLoop :: "string list \<Rightarrow> addr \<Rightarrow> addr \<Rightarrow> state \<Rightarrow> state" where
  "copyLoop [] original copied s = s"
| "copyLoop (key # ks) original copied s =
     (case map_of (heap s original) key of
        None \<Rightarrow> copyLoop ks original copied s
      | Some v \<Rightarrow> copyLoop ks original copied (mapassign copied key v s))"

text \<open>\<^verbatim>\<open>make\<close> takes the next free address of the store for the new, empty map.\<close>

definition copyData :: "addr \<Rightarrow> state \<Rightarrow> addr \<times> state" where
  "copyData original s =
     (let copied = nxt s;
          s1 = s\<lparr>heap := (heap s)(copied := []), nxt := Suc copied\<rparr>
      in (copied, copyLoop (map fst (heap s1 original)) original copied s1))"

text \<open>
  The walk recurses along the references of the store, so it carries fuel: the first
  argument bounds the depth of the calls, and \<open>None\<close> says the bound was reached.
  The type assertion \<^verbatim>\<open>copiedData[key].(map[string]interface{})\<close> panics on anything
  but a map. A value that is neither a map nor a string takes no case of the switch.
\<close>

fun traverseAndUpdate :: "nat \<Rightarrow> addr \<Rightarrow> addr \<Rightarrow> state \<Rightarrow> state outcome option"
  and rangeLoop :: "nat \<Rightarrow> string list \<Rightarrow> addr \<Rightarrow> addr \<Rightarrow> state \<Rightarrow> state outcome option"
where
  "traverseAndUpdate 0 data copiedData s = None"
| "traverseAndUpdate (Suc n) data copiedData s =
     rangeLoop n (map fst (heap s data)) data copiedData s"
| "rangeLoop n [] data copiedData s = Some (Returns s)"
| "rangeLoop n (key # ks) data copiedData s =
     (case map_of (heap s data) key of
        Some (VMap v) \<Rightarrow>
          (case map_of (heap s copiedData) key of
             Some (VMap c) \<Rightarrow>
               (case traverseAndUpdate n v c s of
                  None \<Rightarrow> None
                | Some (Panics m) \<Rightarrow> Some (Panics m)
                | Some (Fatal m) \<Rightarrow> Some (Fatal m)
                | Some (Returns s') \<Rightarrow> rangeLoop n ks data copiedData s')
           | _ \<Rightarrow>
               Some (Panics ''interface conversion: interface {} is not map[string]interface {}''))
      | Some (VString v) \<Rightarrow>
          (case parseAndUpdate key v data copiedData s of
             Panics m \<Rightarrow> Some (Panics m)
           | Fatal m \<Rightarrow> Some (Fatal m)
           | Returns s' \<Rightarrow> rangeLoop n ks data copiedData s')
      | _ \<Rightarrow> rangeLoop n ks data copiedData s)"

section \<open>What the walk may change\<close>

text \<open>
  A token is a string value the matcher recognises. The walk may replace a token by a
  generated scalar, an \<^verbatim>\<open>int\<close> or a \<^verbatim>\<open>string\<close>; \<open>entry_kept\<close> relates an entry of a
  map before the walk to the entry at the same position after it, \<open>shape_kept\<close> a whole
  map object.
\<close>

definition isToken :: "val \<Rightarrow> bool" where
  "isToken v = (case v of VString x \<Rightarrow> getUpdater x \<noteq> None | _ \<Rightarrow> False)"

definition isGenerated :: "val \<Rightarrow> bool" where
  "isGenerated v = (case v of VString x \<Rightarrow> True | VInt i \<Rightarrow> True | _ \<Rightarrow> False)"

definition entry_kept :: "string \<times> val \<Rightarrow> string \<times> val \<Rightarrow> bool" where
  "entry_kept e e' =
     (fst e' = fst e \<and> (snd e' = snd e \<or> isToken (snd e) \<and> isGenerated (snd e')))"

definition shape_kept :: "gomap \<Rightarrow> gomap \<Rightarrow> bool" where
  "shape_kept m m' = list_all2 entry_kept m m'"

text \<open>
  The map objects the walk can reach from a root: the root, and every map stored as an
  entry of a reached map. A map that is only an element of a slice is not reached.
\<close>

inductive_set walked :: "(addr \<Rightarrow> gomap) \<Rightarrow> addr \<Rightarrow> addr set"
  for h :: "addr \<Rightarrow> gomap" and root :: addr
where
  root: "root \<in> walked h root"
| step: "a \<in> walked h root \<Longrightarrow> (k, VMap b) \<in> set (h a) \<Longrightarrow> b \<in> walked h root"

text \<open>
  A parsed document is a finite tree: the maps of the store are well-founded under
  nesting. \<open>ranked r h\<close> says so with a rank \<open>r\<close> that falls from every map to the maps
  stored in it; \<open>allocated s d\<close> says that the document and all references lie below
  the next free address.
\<close>

definition ranked :: "(addr \<Rightarrow> nat) \<Rightarrow> (addr \<Rightarrow> gomap) \<Rightarrow> bool" where
  "ranked r h = (\<forall>a k b. (k, VMap b) \<in> set (h a) \<longrightarrow> r b < r a)"

definition allocated :: "state \<Rightarrow> addr \<Rightarrow> bool" where
  "allocated s d = (d < nxt s \<and> (\<forall>a k b. (k, VMap b) \<in> set (heap s a) \<longrightarrow> b < nxt s))"

text \<open>\<open>store_kept\<close> relates the whole store before the walk to the store after it.\<close>

definition store_kept :: "(addr \<Rightarrow> gomap) \<Rightarrow> (addr \<Rightarrow> gomap) \<Rightarrow> bool" where
  "store_kept h h' = (\<forall>a. shape_kept (h a) (h' a))"

text \<open>
  What a call of the walk on a document \<open>d\<close> and its copy \<open>c\<close> establishes between the
  state \<open>s\<close> it starts in and the state \<open>s'\<close> it returns: the shape of every map is kept,
  only maps reached from \<open>d\<close>, and \<open>c\<close>, are written, and the two maps agree on every key.
  \<open>finishes\<close> adds that the fuel sufficed.
\<close>

definition walk_ok :: "addr \<Rightarrow> addr \<Rightarrow> state \<Rightarrow> state \<Rightarrow> bool" where
  "walk_ok d c s s' =
     (store_kept (heap s) (heap s')
      \<and> (\<forall>a. a \<notin> walked (heap s) d \<longrightarrow> a \<noteq> c \<longrightarrow> heap s' a = heap s a)
      \<and> map_of (heap s' c) = map_of (heap s' d))"

definition finishes :: "addr \<Rightarrow> addr \<Rightarrow> state \<Rightarrow> state outcome option \<Rightarrow> bool" where
  "finishes d c s res = (\<exists>out. res = Some out \<and> (\<forall>s'. out = Returns s' \<longrightarrow> walk_ok d c s s'))"

section \<open>Concrete inputs\<close>

definition world0 :: world where
  "world0 = \<lparr>randTape = (\<lambda>i. 12345 + i),
             uuidTape = (\<lambda>i. ''123e4567-e89b-42d3-a456-426614174000''),
             memTape = (\<lambda>i. 4096)\<rparr>"

text \<open>
  A parsed document with a nested object, a failing token and an array that holds a
  placeholder string and an object: the map at address 2 is reachable through the slice
  only.
\<close>

definition heap0 :: "addr \<Rightarrow> gomap" where
  "heap0 = (\<lambda>a. [])
     (0 := [(''id'', VString ''$UUID''), (''count'', VFloat64 0x401C000000000000),
            (''a'', VMap 1), (''tags'', VSlice [VString ''$UUID'', VMap 2])],
      1 := [(''b'', VString ''$INT(10:1)''), (''n'', VString ''$INT(1:10)'')],
      2 := [(''t'', VString ''$UUID'')])"

definition state0 :: state where
  "state0 = \<lparr>heap = heap0, nxt = 3, env = world0, stdout = []\<rparr>"

definition rank0 :: "addr \<Rightarrow> nat" where
  "rank0 a = (if a = 0 then 1 else 0)"

section \<open>The integer generator: properties\<close>

lemma isDigit_simps [simp]:
  "\<not> isDigit (CHR '':'')" "\<not> isDigit (CHR '')'')" "\<not> isDigit (CHR ''+'')"
  "\<not> isDigit (CHR ''-'')" "\<not> isDigit (CHR ''('')"
  by (simp_all add: isDigit_def)

lemma takeWhile_digits:
  "list_all isDigit ds \<Longrightarrow> \<not> isDigit c \<Longrightarrow> takeWhile isDigit (ds @ c # r) = ds"
  by (induction ds) auto

lemma dropWhile_digits:
  "list_all isDigit ds \<Longrightarrow> \<not> isDigit c \<Longrightarrow> dropWhile isDigit (ds @ c # r) = c # r"
  by (induction ds) auto

lemma takeWhile_all_digits: "list_all isDigit ds \<Longrightarrow> takeWhile isDigit ds = ds"
  by (induction ds) auto

lemma FindStringSubmatch_match:
  assumes "lo \<noteq> []" "hi \<noteq> []" "list_all isDigit lo" "list_all isDigit hi"
  shows "FindStringSubmatch (''$INT('' @ lo @ '':'' @ hi @ '')'')
           = [''$INT('' @ lo @ '':'' @ hi @ '')'', lo, hi]"
  using assms
  by (simp add: FindStringSubmatch_def HasPrefix_def takeWhile_digits dropWhile_digits)

lemma HasPrefix_append: "HasPrefix s p \<Longrightarrow> s = p @ drop (length p) s"
  by (metis HasPrefix_def append_take_drop_id)

lemma list_all_takeWhile: "list_all P (takeWhile P xs)"
  by (induction xs) auto

lemma FindStringSubmatch_shape:
  assumes "FindStringSubmatch v \<noteq> []"
  shows "\<exists>lo hi. lo \<noteq> [] \<and> hi \<noteq> [] \<and> list_all isDigit lo \<and> list_all isDigit hi
           \<and> v = ''$INT('' @ lo @ '':'' @ hi @ '')''"
proof -
  define r1 where "r1 = drop 5 v"
  define g1 where "g1 = takeWhile isDigit r1"
  define r2 where "r2 = dropWhile isDigit r1"
  define r3 where "r3 = tl r2"
  define g2 where "g2 = takeWhile isDigit r3"
  define r4 where "r4 = dropWhile isDigit r3"
  from assms have pre: "HasPrefix v ''$INT(''"
    by (auto simp: FindStringSubmatch_def split: if_splits)
  from assms pre have c: "g1 \<noteq> []" "r2 \<noteq> []" "hd r2 = CHR '':''" "g2 \<noteq> []" "r4 = '')''"
    unfolding g1_def r2_def r1_def r3_def g2_def r4_def
    by (auto simp: FindStringSubmatch_def Let_def split: if_splits)
  have "length ''$INT('' = 5" by simp
  with HasPrefix_append [OF pre] have v: "v = ''$INT('' @ r1" unfolding r1_def by metis
  have "r1 = g1 @ r2" by (simp add: g1_def r2_def)
  moreover have "r2 = CHR '':'' # r3" using c by (cases r2) (auto simp: r3_def)
  moreover have "r3 = g2 @ r4" by (simp add: g2_def r4_def)
  ultimately have "v = ''$INT('' @ g1 @ '':'' @ g2 @ '')''" using v c by simp
  moreover have "list_all isDigit g1" "list_all isDigit g2"
    by (simp_all add: g1_def g2_def list_all_takeWhile)
  ultimately show ?thesis using c by blast
qed

lemma digit_not_sign: "isDigit c \<Longrightarrow> c \<noteq> CHR ''+'' \<and> c \<noteq> CHR ''-''"
  by (auto simp: isDigit_def)

lemma Atoi_digits:
  assumes "ds \<noteq> []" "list_all isDigit ds"
  shows "Atoi ds = (if int (digitsVal ds) \<le> maxInt then (int (digitsVal ds), None)
                    else (maxInt, Some ErrRange))"
proof -
  from assms obtain c cs where ds: "ds = c # cs" "isDigit c" by (cases ds) auto
  then have hd: "hd ds \<noteq> CHR ''+''" "hd ds \<noteq> CHR ''-''" using digit_not_sign by auto
  have tw: "takeWhile isDigit ds = ds" using assms by (simp add: takeWhile_all_digits)
  show ?thesis using assms(1) hd
    by (simp add: Atoi_def Let_def maxInt_def tw)
qed

lemma wrap_id: "minInt \<le> x \<Longrightarrow> x \<le> maxInt \<Longrightarrow> wrap x = x"
  by (simp add: wrap_def minInt_def maxInt_def)

lemma Intn_pos:
  "0 < n \<Longrightarrow> \<exists>v w'. Intn n w = Returns (v, w') \<and> 0 \<le> v \<and> v < n"
  by (simp add: Intn_def)

lemmas eval_defs = getInt_def FindStringSubmatch_def HasPrefix_def isDigit_def Atoi_def
  digitsVal_def digitVal_def wrap_def Intn_def maxInt_def minInt_def

subsection \<open>Bounds of the integer generator\<close>

text \<open>
  Claim C2, as amended. For a token \<^verbatim>\<open>$INT(lo:hi)\<close> whose bounds are digit strings with
  \<open>lo \<le> hi\<close>, both within the range of \<^verbatim>\<open>int\<close>, and whose width \<open>hi - lo + 1\<close> is
  within that range too, the integer generator returns a value \<open>v\<close> with no error and
  \<open>lo \<le> v \<le> hi\<close>. The claim as stated, for all non-negative bounds, fails: a bound
  above the largest \<^verbatim>\<open>int\<close> makes the generator return the range error,
  as the counterexample after the theorem shows.
\<close>

theorem getInt_in_range:
  assumes "lo \<noteq> []" "hi \<noteq> []" "list_all isDigit lo" "list_all isDigit hi"
    and "digitsVal lo \<le> digitsVal hi"
    and "int (digitsVal hi) \<le> maxInt"
    and "int (digitsVal hi) - int (digitsVal lo) < maxInt"
  shows "\<exists>v w'. getInt (''$INT('' @ lo @ '':'' @ hi @ '')'') w = Returns ((v, None), w')
           \<and> int (digitsVal lo) \<le> v \<and> v \<le> int (digitsVal hi)"
proof -
  define tok where "tok = ''$INT('' @ lo @ '':'' @ hi @ '')''"
  let ?L = "int (digitsVal lo)" and ?H = "int (digitsVal hi)"
  have m: "FindStringSubmatch tok = [tok, lo, hi]"
    unfolding tok_def by (rule FindStringSubmatch_match [OF assms(1-4)])
  have LH: "?L \<le> ?H" using assms(5) by simp
  have lo: "Atoi lo = (?L, None)" using assms LH by (simp add: Atoi_digits)
  have hi: "Atoi hi = (?H, None)" using assms by (simp add: Atoi_digits)
  have width: "wrap (?H - ?L + 1) = ?H - ?L + 1"
    using LH assms(7) by (intro wrap_id) (simp_all add: minInt_def maxInt_def)
  have "0 < ?H - ?L + 1" using LH by simp
  from Intn_pos [OF this, of w] obtain v w'
    where draw: "Intn (?H - ?L + 1) w = Returns (v, w')" and v: "0 \<le> v" "v < ?H - ?L + 1"
    by blast
  have sum: "wrap (v + ?L) = v + ?L"
    using v assms(6) by (intro wrap_id) (simp_all add: minInt_def maxInt_def)
  have "getInt tok w = Returns ((v + ?L, None), w')"
    using LH by (simp add: getInt_def m lo hi width draw sum)
  then show ?thesis using v unfolding tok_def by auto
qed

theorem getInt_in_range_witness:
  "\<exists>w'. getInt ''$INT(1:10)'' world0 = Returns ((6, None), w')"
proof -
  have "\<exists>v w'. getInt (''$INT('' @ ''1'' @ '':'' @ ''10'' @ '')'') world0 = Returns ((v, None), w')
           \<and> int (digitsVal ''1'') \<le> v \<and> v \<le> int (digitsVal ''10'')"
    by (rule getInt_in_range) (simp_all add: isDigit_def digitsVal_def digitVal_def maxInt_def)
  then show ?thesis by (simp add: eval_defs world0_def)
qed

theorem getInt_in_range_counterexample:
  "digitsVal ''1'' \<le> digitsVal ''99999999999999999999''
   \<and> getInt ''$INT(1:99999999999999999999)'' world0
       = Returns ((0, Some (ErrorString ''invalid INT range'')), world0)"
  by (simp add: eval_defs)

text \<open>
  Claim C3, as amended. When a token has the shape \<^verbatim>\<open>$INT(lo:hi)\<close> with digit bounds and
  \<^verbatim>\<open>strconv.Atoi\<close> fails on either bound, the integer generator returns the error
  \<^verbatim>\<open>invalid INT range\<close> and draws no random number: the guard tests \<^verbatim>\<open>err1\<close> and
  \<^verbatim>\<open>err2\<close> before the order of the bounds. The claim as stated, that a parse failure
  falls back to the default range without an error, fails at the counterexample after
  the theorem.
\<close>

theorem getInt_parse_failure:
  assumes "lo \<noteq> []" "hi \<noteq> []" "list_all isDigit lo" "list_all isDigit hi"
    and "snd (Atoi lo) \<noteq> None \<or> snd (Atoi hi) \<noteq> None"
  shows "getInt (''$INT('' @ lo @ '':'' @ hi @ '')'') w
           = Returns ((0, Some (ErrorString ''invalid INT range'')), w)"
proof -
  define tok where "tok = ''$INT('' @ lo @ '':'' @ hi @ '')''"
  have m: "FindStringSubmatch tok = [tok, lo, hi]"
    unfolding tok_def by (rule FindStringSubmatch_match [OF assms(1-4)])
  have "getInt tok w = Returns ((0, Some (ErrorString ''invalid INT range'')), w)"
    using assms(5) by (auto simp: getInt_def m split: prod.splits)
  then show ?thesis unfolding tok_def .
qed

theorem getInt_parse_failure_witness:
  "getInt ''$INT(18446744073709551616:5)'' world0
     = Returns ((0, Some (ErrorString ''invalid INT range'')), world0)"
proof -
  have "getInt (''$INT('' @ ''18446744073709551616'' @ '':'' @ ''5'' @ '')'') world0
           = Returns ((0, Some (ErrorString ''invalid INT range'')), world0)"
    by (rule getInt_parse_failure) (simp_all add: eval_defs)
  then show ?thesis by simp
qed

theorem getInt_parse_failure_counterexample:
  "snd (Atoi ''9223372036854775808'') = Some ErrRange
   \<and> getInt ''$INT(5:9223372036854775808)'' world0
       = Returns ((0, Some (ErrorString ''invalid INT range'')), world0)"
  by (simp add: eval_defs)

text \<open>
  Claim C5. For every value that is not of the exact form \<^verbatim>\<open>$INT(lo:hi)\<close> with digit
  bounds, bare \<^verbatim>\<open>$INT\<close> and \<^verbatim>\<open>$INT(a:b)\<close> among them, the integer generator returns
  a value \<open>v\<close> with no error and \<open>0 \<le> v \<le> 9999\<close>.
\<close>

theorem getInt_default:
  assumes "\<not> (\<exists>lo hi. lo \<noteq> [] \<and> hi \<noteq> [] \<and> list_all isDigit lo \<and> list_all isDigit hi
                 \<and> value = ''$INT('' @ lo @ '':'' @ hi @ '')'')"
  shows "\<exists>v w'. getInt value w = Returns ((v, None), w') \<and> 0 \<le> v \<and> v \<le> 9999"
proof -
  have "FindStringSubmatch value = []"
    using assms FindStringSubmatch_shape by blast
  moreover obtain v w' where "Intn 10000 w = Returns (v, w')" "0 \<le> v" "v < 10000"
    using Intn_pos [of 10000 w] by auto
  ultimately show ?thesis by (simp add: getInt_def)
qed

theorem getInt_default_witness:
  "(\<exists>w'. getInt ''$INT(a:b)'' world0 = Returns ((2345, None), w'))
   \<and> (\<exists>w'. getInt ''$INT'' world0 = Returns ((2345, None), w'))"
proof -
  have no: "\<not> (\<exists>lo hi. lo \<noteq> [] \<and> hi \<noteq> [] \<and> list_all isDigit lo \<and> list_all isDigit hi
                 \<and> v = ''$INT('' @ lo @ '':'' @ hi @ '')'')" if "FindStringSubmatch v = []" for v
    using that FindStringSubmatch_match by fastforce
  have a: "\<exists>v w'. getInt ''$INT(a:b)'' world0 = Returns ((v, None), w') \<and> 0 \<le> v \<and> v \<le> 9999"
    by (rule getInt_default, rule no) (simp add: eval_defs)
  have b: "\<exists>v w'. getInt ''$INT'' world0 = Returns ((v, None), w') \<and> 0 \<le> v \<and> v \<le> 9999"
    by (rule getInt_default, rule no) (simp add: eval_defs)
  from a b show ?thesis by (simp add: eval_defs world0_def)
qed

text \<open>
  Claim C10 fails on the code. Both bounds of \<^verbatim>\<open>$INT(0:9223372036854775807)\<close> parse and
  are in order, but the width \<open>upper - lower + 1\<close> wraps around to the least \<^verbatim>\<open>int\<close>,
  and \<^verbatim>\<open>rand.Intn\<close> panics on it.
\<close>

theorem getInt_width_overflow:
  "Atoi ''0'' = (0, None) \<and> Atoi ''9223372036854775807'' = (maxInt, None)
   \<and> wrap (maxInt - 0 + 1) = minInt
   \<and> getInt ''$INT(0:9223372036854775807)'' w = Panics ''invalid argument to Intn''"
  by (simp add: eval_defs)

theorem getInt_width_overflow_witness:
  "getInt ''$INT(0:9223372036854775807)'' world0 = Panics ''invalid argument to Intn''"
  using getInt_width_overflow [of world0] by simp

section \<open>The string generator: properties\<close>



















lemma fillBytes_numeral:
  "fillBytes (numeral k) w =
     (case Intn (int (length charset)) w of
        Panics m \<Rightarrow> Panics m
      | Fatal m \<Rightarrow> Fatal m
      | Returns (i, w') \<Rightarrow>
          (case fillBytes (pred_numeral k) w' of
             Panics m \<Rightarrow> Panics m
           | Fatal m \<Rightarrow> Fatal m
           | Returns (cs, w'') \<Rightarrow> Returns (charset ! nat i # cs, w'')))"
  by (simp add: numeral_eq_Suc)

lemma fillBytes_1:
  "fillBytes 1 w =
     (case Intn (int (length charset)) w of
        Panics m \<Rightarrow> Panics m
      | Fatal m \<Rightarrow> Fatal m
      | Returns (i, w') \<Rightarrow> Returns ([charset ! nat i], w'))"
  by (simp split: outcome.splits)

lemmas eval_str = randomString_def getRandomStrNlen_def mallocgc_def maxAlloc_def TrimSuffix_def HasSuffix_def
  charset_def fillBytes_numeral fillBytes_1



text \<open>
  Claim C7 fails on the code. The argument of \<^verbatim>\<open>$CHAR(-5)\<close> parses, to a negative
  number, so the default length is not taken and \<^verbatim>\<open>make([]byte, -5)\<close> panics: the
  string generator does not return.
\<close>

theorem randomString_negative_length:
  "Atoi ''-5'' = (- 5, None)
   \<and> randomString ''$CHAR(-5)'' w = Panics ''runtime error: makeslice: len out of range''"
  by (simp add: eval_str eval_defs)

theorem randomString_negative_length_witness:
  "randomString ''$CHAR(-5)'' world0 = Panics ''runtime error: makeslice: len out of range''"
  using randomString_negative_length [of world0] by simp

section \<open>Token matcher and substitution: properties\<close>

lemma HasPrefix_self: "HasPrefix (p @ r) p"
  by (simp add: HasPrefix_def)

lemma not_HasPrefix: "(\<forall>r. v \<noteq> p @ r) \<Longrightarrow> \<not> HasPrefix v p"
  using HasPrefix_append by blast

lemma HasPrefix_longer: "HasPrefix (p @ r) q \<Longrightarrow> length q \<le> length p \<Longrightarrow> HasPrefix p q"
  by (simp add: HasPrefix_def)

lemma getUpdater_UUID: "getUpdater (''$UUID'' @ r) = Some UUIDUpdater"
  unfolding getUpdater_def using HasPrefix_self [of "''$UUID''" r] by (simp add: updaters_def)

lemma getUpdater_INT: "getUpdater (''$INT'' @ r) = Some IntUpdater"
proof -
  have "\<not> HasPrefix (''$INT'' @ r) ''$UUID''" by (simp add: HasPrefix_def)
  then show ?thesis
    unfolding getUpdater_def using HasPrefix_self [of "''$INT''" r] by (simp add: updaters_def)
qed

lemma getUpdater_CHAR: "getUpdater (''$CHAR'' @ r) = Some CharUpdater"
proof -
  have "\<not> HasPrefix (''$CHAR'' @ r) ''$UUID''" "\<not> HasPrefix (''$CHAR'' @ r) ''$INT''"
    by (simp_all add: HasPrefix_def)
  then show ?thesis
    unfolding getUpdater_def using HasPrefix_self [of "''$CHAR''" r] by (simp add: updaters_def)
qed

text \<open>
  Claim C9. The matcher decides by prefix, case-sensitively and anchored at the start: a
  value that begins with \<^verbatim>\<open>$UUID\<close>, \<^verbatim>\<open>$INT\<close> or \<^verbatim>\<open>$CHAR\<close> gets the identifier,
  integer or string generator whatever follows the prefix, and every other value gets no
  generator, in which case the substitution step returns the state as it was.
\<close>

theorem getUpdater_by_prefix:
  "getUpdater (''$UUID'' @ rest) = Some UUIDUpdater
   \<and> getUpdater (''$INT'' @ rest) = Some IntUpdater
   \<and> getUpdater (''$CHAR'' @ rest) = Some CharUpdater
   \<and> ((\<forall>r. value \<noteq> ''$UUID'' @ r \<and> value \<noteq> ''$INT'' @ r \<and> value \<noteq> ''$CHAR'' @ r) \<longrightarrow>
          getUpdater value = None
          \<and> parseAndUpdate key value data copiedData s = Returns s)"
proof (intro conjI impI)
  assume no: "\<forall>r. value \<noteq> ''$UUID'' @ r \<and> value \<noteq> ''$INT'' @ r \<and> value \<noteq> ''$CHAR'' @ r"
  have "\<not> HasPrefix value ''$UUID''" by (rule not_HasPrefix) (use no in blast)
  moreover have "\<not> HasPrefix value ''$INT''" by (rule not_HasPrefix) (use no in blast)
  moreover have "\<not> HasPrefix value ''$CHAR''" by (rule not_HasPrefix) (use no in blast)
  ultimately show none: "getUpdater value = None" by (simp add: getUpdater_def)
  then show "parseAndUpdate key value data copiedData s = Returns s"
    by (simp add: parseAndUpdate_def)
qed (rule getUpdater_UUID getUpdater_INT getUpdater_CHAR)+

theorem getUpdater_by_prefix_witness:
  "getUpdater ''$UUID(1:10) and more'' = Some UUIDUpdater
   \<and> getUpdater ''$INT(1:10) and more'' = Some IntUpdater
   \<and> getUpdater ''$CHAR(1:10) and more'' = Some CharUpdater
   \<and> getUpdater ''$uuid'' = None
   \<and> getUpdater '' $INT'' = None
   \<and> parseAndUpdate ''id'' ''$uuid'' 0 3 state0 = Returns state0"
proof -
  have a: "\<forall>r. ''$uuid'' \<noteq> ''$UUID'' @ r \<and> ''$uuid'' \<noteq> ''$INT'' @ r \<and> ''$uuid'' \<noteq> ''$CHAR'' @ r"
    by simp
  have b: "\<forall>r. '' $INT'' \<noteq> ''$UUID'' @ r \<and> '' $INT'' \<noteq> ''$INT'' @ r \<and> '' $INT'' \<noteq> ''$CHAR'' @ r"
    by simp
  from getUpdater_by_prefix [of "''(1:10) and more''" "''$uuid''" "''id''" 0 3 state0] a
       getUpdater_by_prefix [of "''(1:10) and more''" "'' $INT''" "''id''" 0 3 state0] b
  show ?thesis by simp
qed




section \<open>Copy and walk: properties\<close>

subsection \<open>Entries and maps\<close>

lemma entry_kept_refl: "entry_kept e e"
  by (simp add: entry_kept_def)

lemma entry_kept_trans: "entry_kept a b \<Longrightarrow> entry_kept b c \<Longrightarrow> entry_kept a c"
  by (auto simp: entry_kept_def)

lemma shape_kept_refl: "shape_kept m m"
  by (simp add: shape_kept_def list_all2_refl entry_kept_refl)

lemma shape_kept_trans: "shape_kept m m' \<Longrightarrow> shape_kept m' m'' \<Longrightarrow> shape_kept m m''"
  unfolding shape_kept_def by (rule list_all2_trans [OF entry_kept_trans])

lemma shape_kept_keys: "shape_kept m m' \<Longrightarrow> map fst m' = map fst m"
  unfolding shape_kept_def by (induction rule: list_all2_induct) (auto simp: entry_kept_def)

lemma not_isToken_VMap [simp]: "\<not> isToken (VMap b)"
  by (simp add: isToken_def)

lemma not_isGenerated_VMap [simp]: "\<not> isGenerated (VMap b)"
  by (simp add: isGenerated_def)

lemma entry_kept_VMap1: "entry_kept (k, VMap b) e' \<Longrightarrow> e' = (k, VMap b)"
  by (cases e') (simp add: entry_kept_def)

lemma entry_kept_VMap2: "entry_kept e (k, VMap b) \<Longrightarrow> e = (k, VMap b)"
  by (cases e) (simp add: entry_kept_def)

lemma shape_kept_VMap:
  assumes "shape_kept m m'"
  shows "((k, VMap b) \<in> set m) = ((k, VMap b) \<in> set m')"
proof
  assume "(k, VMap b) \<in> set m"
  then obtain i where i: "i < length m" "m ! i = (k, VMap b)" by (auto simp: in_set_conv_nth)
  with assms have "entry_kept (k, VMap b) (m' ! i)" "i < length m'"
    by (auto simp: shape_kept_def list_all2_conv_all_nth)
  then show "(k, VMap b) \<in> set m'" using entry_kept_VMap1 nth_mem by metis
next
  assume "(k, VMap b) \<in> set m'"
  then obtain i where i: "i < length m'" "m' ! i = (k, VMap b)" by (auto simp: in_set_conv_nth)
  with assms have "entry_kept (m ! i) (k, VMap b)" "i < length m"
    by (auto simp: shape_kept_def list_all2_conv_all_nth)
  then show "(k, VMap b) \<in> set m" using entry_kept_VMap2 nth_mem by metis
qed

lemma shape_kept_update:
  "map_of m key = Some v \<Longrightarrow> isToken v \<Longrightarrow> isGenerated nv \<Longrightarrow>
     shape_kept m (AList.update key nv m)"
proof (induction m)
  case Nil
  then show ?case by simp
next
  case (Cons e m)
  then show ?case
    using shape_kept_refl [of m]
    by (cases e) (auto simp: shape_kept_def entry_kept_def)
qed

lemma set_update_cases:
  "e \<in> set (AList.update k v m) \<Longrightarrow> e = (k, v) \<or> e \<in> set m"
  by (induction m) (auto split: if_splits)

subsection \<open>Stores\<close>

lemma store_kept_refl: "store_kept h h"
  by (simp add: store_kept_def shape_kept_refl)

lemma store_kept_trans: "store_kept h h' \<Longrightarrow> store_kept h' h'' \<Longrightarrow> store_kept h h''"
  unfolding store_kept_def using shape_kept_trans by blast

lemma ranked_kept: "ranked r h \<Longrightarrow> store_kept h h' \<Longrightarrow> ranked r h'"
  unfolding ranked_def store_kept_def using shape_kept_VMap by blast

lemma walked_mono:
  assumes "\<And>a k b. (k, VMap b) \<in> set (h a) \<Longrightarrow> (k, VMap b) \<in> set (h' a)"
    and "x \<in> walked h d"
  shows "x \<in> walked h' d"
  using assms(2)
proof induction
  case root
  show ?case by (rule walked.root)
next
  case (step a k b)
  then show ?case using assms(1) walked.step by blast
qed

lemma store_kept_VMap:
  "store_kept h h' \<Longrightarrow> ((k, VMap b) \<in> set (h a)) = ((k, VMap b) \<in> set (h' a))"
  unfolding store_kept_def using shape_kept_VMap by blast

lemma walked_kept:
  assumes "store_kept h h'"
  shows "walked h' d = walked h d"
proof (intro set_eqI iffI)
  fix x
  assume "x \<in> walked h' d"
  then show "x \<in> walked h d"
    by (rule walked_mono [rotated]) (simp add: store_kept_VMap [OF assms])
next
  fix x
  assume "x \<in> walked h d"
  then show "x \<in> walked h' d"
    by (rule walked_mono [rotated]) (simp add: store_kept_VMap [OF assms, symmetric])
qed

lemma walked_rank:
  assumes "ranked r h" and "x \<in> walked h v"
  shows "x = v \<or> r x < r v"
  using assms(2)
proof induction
  case root
  show ?case by simp
next
  case (step a k b)
  from assms(1) step.hyps(2) have "r b < r a" by (auto simp: ranked_def)
  with step.IH show ?case by auto
qed

lemma walked_trans:
  assumes "v \<in> walked h d" and "x \<in> walked h v"
  shows "x \<in> walked h d"
  using assms(2)
proof induction
  case root
  show ?case by (rule assms(1))
next
  case (step a k b)
  then show ?case using walked.step by blast
qed

lemma walk_ok_refl: "map_of (heap s c) = map_of (heap s d) \<Longrightarrow> walk_ok d c s s"
  by (simp add: walk_ok_def store_kept_refl)

lemma walk_ok_trans:
  assumes "walk_ok d c s s1" and "walk_ok d c s1 s2"
  shows "walk_ok d c s s2"
proof -
  from assms(1) have k: "store_kept (heap s) (heap s1)" by (simp add: walk_ok_def)
  then have w: "walked (heap s1) d = walked (heap s) d" by (rule walked_kept)
  from assms(2) have k2: "store_kept (heap s1) (heap s2)" by (simp add: walk_ok_def)
  have "store_kept (heap s) (heap s2)" by (rule store_kept_trans [OF k k2])
  moreover have "heap s2 a = heap s a" if "a \<notin> walked (heap s) d" "a \<noteq> c" for a
  proof -
    have "heap s2 a = heap s1 a" using assms(2) that unfolding walk_ok_def w by blast
    moreover have "heap s1 a = heap s a" using assms(1) that unfolding walk_ok_def by blast
    ultimately show ?thesis by simp
  qed
  moreover have "map_of (heap s2 c) = map_of (heap s2 d)"
    using assms(2) by (simp add: walk_ok_def)
  ultimately show ?thesis unfolding walk_ok_def by blast
qed

subsection \<open>One substitution\<close>

lemma Update_generated: "Update u v w = Returns ((nv, None), w') \<Longrightarrow> isGenerated nv"
  by (cases u) (auto simp: isGenerated_def split: outcome.splits prod.splits)

lemma heap_mapassign2:
  "heap (mapassign c k v (mapassign d k v s)) a =
     (if a = c then AList.update k v (heap s c)
      else if a = d then AList.update k v (heap s d)
      else heap s a)"
  by (simp add: mapassign_def)

lemma parseAndUpdate_cases:
  assumes "parseAndUpdate key v d c s = Returns s'"
  shows "heap s' = heap s
     \<or> (\<exists>nv. isGenerated nv \<and> getUpdater v \<noteq> None
           \<and> (\<forall>a. heap s' a = (if a = c then AList.update key nv (heap s c)
                                else if a = d then AList.update key nv (heap s d)
                                else heap s a)))"
proof (cases "getUpdater v")
  case None
  with assms show ?thesis by (simp add: parseAndUpdate_def)
next
  case (Some u)
  show ?thesis
  proof (cases "Update u v (env s)")
    case (Panics m)
    with assms Some show ?thesis by (simp add: parseAndUpdate_def)
  next
    case (Fatal m)
    with assms Some show ?thesis by (simp add: parseAndUpdate_def)
  next
    case (Returns x)
    obtain nv err w' where x: "x = ((nv, err), w')" by (metis prod.collapse)
    show ?thesis
    proof (cases err)
      case None
      from Returns x None have "isGenerated nv" using Update_generated by blast
      moreover from assms Some Returns x None
      have "s' = mapassign c key nv (mapassign d key nv (s\<lparr>env := w'\<rparr>))"
        by (simp add: parseAndUpdate_def)
      then have "\<forall>a. heap s' a = (if a = c then AList.update key nv (heap s c)
                                else if a = d then AList.update key nv (heap s d)
                                else heap s a)"
        by (simp add: heap_mapassign2)
      ultimately show ?thesis using Some by blast
    next
      case (Some e)
      with assms \<open>getUpdater v = Some u\<close> Returns x show ?thesis
        by (auto simp: parseAndUpdate_def colorize_def)
    qed
  qed
qed

lemma parseAndUpdate_step:
  assumes "map_of (heap s d) key = Some (VString v)"
    and "map_of (heap s c) = map_of (heap s d)"
    and "parseAndUpdate key v d c s = Returns s'"
  shows "walk_ok d c s s'"
proof -
  from parseAndUpdate_cases [OF assms(3)] show ?thesis
  proof
    assume "heap s' = heap s"
    then show ?thesis using assms(2) by (simp add: walk_ok_def store_kept_refl)
  next
    assume "\<exists>nv. isGenerated nv \<and> getUpdater v \<noteq> None
           \<and> (\<forall>a. heap s' a = (if a = c then AList.update key nv (heap s c)
                                else if a = d then AList.update key nv (heap s d)
                                else heap s a))"
    then obtain nv where g: "isGenerated nv" and u: "getUpdater v \<noteq> None"
      and h: "\<And>a. heap s' a = (if a = c then AList.update key nv (heap s c)
                                else if a = d then AList.update key nv (heap s d)
                                else heap s a)"
      by blast
    have tok: "isToken (VString v)" using u by (simp add: isToken_def)
    have kd: "shape_kept (heap s d) (AList.update key nv (heap s d))"
      by (rule shape_kept_update [OF assms(1) tok g])
    have kc: "shape_kept (heap s c) (AList.update key nv (heap s c))"
      using assms(1,2) by (intro shape_kept_update [OF _ tok g]) simp
    have "store_kept (heap s) (heap s')"
      unfolding store_kept_def using kd kc by (simp add: h shape_kept_refl)
    moreover have "d \<in> walked (heap s) d" by (rule walked.root)
    then have "\<forall>a. a \<notin> walked (heap s) d \<longrightarrow> a \<noteq> c \<longrightarrow> heap s' a = heap s a"
      by (auto simp: h)
    moreover have "map_of (heap s' c) = map_of (heap s' d)"
    proof -
      have "heap s' c = AList.update key nv (heap s c)" by (simp add: h)
      moreover have "heap s' d = AList.update key nv (heap s d)"
        by (cases "d = c") (simp_all add: h)
      ultimately show ?thesis by (simp only: update_conv' assms(2))
    qed
    ultimately show ?thesis by (simp add: walk_ok_def)
  qed
qed

subsection \<open>The walk\<close>

lemma nested_ok:
  assumes "ranked r (heap s)" and "r c = r d"
    and "map_of (heap s d) key = Some (VMap v)"
    and "map_of (heap s c) = map_of (heap s d)"
    and "walk_ok v v s s1"
  shows "walk_ok d c s s1"
proof -
  have ref: "(key, VMap v) \<in> set (heap s d)" using assms(3) by (rule map_of_SomeD)
  then have rv: "r v < r d" using assms(1) by (auto simp: ranked_def)
  have vd: "v \<in> walked (heap s) d" using walked.root ref by (rule walked.step)
  have frame: "heap s1 a = heap s a" if "a \<notin> walked (heap s) v" for a
  proof -
    have "a \<noteq> v" using that walked.root by metis
    with assms(5) that show ?thesis by (simp add: walk_ok_def)
  qed
  have out: "a \<notin> walked (heap s) v" if "r a = r d" for a
    using walked_rank [OF assms(1), of a v] rv that by auto
  have "heap s1 c = heap s c" "heap s1 d = heap s d"
    using frame out assms(2) by simp_all
  then have "map_of (heap s1 c) = map_of (heap s1 d)" using assms(4) by simp
  moreover have "heap s1 a = heap s a" if "a \<notin> walked (heap s) d" for a
    using frame that walked_trans [OF vd] by blast
  moreover have "store_kept (heap s) (heap s1)" using assms(5) by (simp add: walk_ok_def)
  ultimately show ?thesis by (simp add: walk_ok_def)
qed

lemma finishes_Returns:
  "walk_ok d c s s' \<Longrightarrow> finishes d c s (Some (Returns s'))"
  by (simp add: finishes_def)

lemma finishes_Panics: "finishes d c s (Some (Panics m))"
  by (simp add: finishes_def)

lemma finishes_Fatal: "finishes d c s (Some (Fatal m))"
  by (simp add: finishes_def)

lemma finishes_after:
  assumes "walk_ok d c s s1" and "finishes d c s1 res"
  shows "finishes d c s res"
  using assms unfolding finishes_def by (blast intro: walk_ok_trans)

lemma walk_finishes:
  "ranked r (heap s) \<Longrightarrow> r c = r d \<Longrightarrow> map_of (heap s c) = map_of (heap s d) \<Longrightarrow> r d < n \<Longrightarrow>
     finishes d c s (traverseAndUpdate n d c s)"
  "ranked r (heap s) \<Longrightarrow> r c = r d \<Longrightarrow> map_of (heap s c) = map_of (heap s d) \<Longrightarrow> r d \<le> n \<Longrightarrow>
     finishes d c s (rangeLoop n ks d c s)"
proof (induction n d c s and n ks d c s rule: traverseAndUpdate_rangeLoop.induct)
  case (1 data copiedData s)
  then show ?case by simp
next
  case (2 n data copiedData s)
  then show ?case by simp
next
  case (3 n data copiedData s)
  then show ?case by (simp add: finishes_Returns walk_ok_refl)
next
  case (4 n key ks d c s)
  note rk = \<open>ranked r (heap s)\<close> and rc = \<open>r c = r d\<close>
    and eq = \<open>map_of (heap s c) = map_of (heap s d)\<close> and fuel = \<open>r d \<le> n\<close>
  show ?case
  proof (cases "map_of (heap s d) key")
    case None
    then show ?thesis using "4.IH"(1) rk rc eq fuel by simp
  next
    case (Some x)
    show ?thesis
    proof (cases x)
      case (VString v)
      show ?thesis
      proof (cases "parseAndUpdate key v d c s")
        case (Panics m)
        then show ?thesis using Some VString by (simp add: finishes_Panics)
      next
        case (Fatal m)
        then show ?thesis using Some VString by (simp add: finishes_Fatal)
      next
        case (Returns s1)
        have ok: "walk_ok d c s s1"
          using Some VString eq Returns by (intro parseAndUpdate_step) simp_all
        then have "ranked r (heap s1)" "map_of (heap s1 c) = map_of (heap s1 d)"
          using rk ranked_kept by (auto simp: walk_ok_def)
        then have "finishes d c s1 (rangeLoop n ks d c s1)"
          using "4.IH"(5) [OF Some VString Returns] rc fuel by simp
        then have "finishes d c s (rangeLoop n ks d c s1)"
          using ok by (rule finishes_after [rotated])
        then show ?thesis using Some VString Returns by simp
      qed
    next
      case (VMap v)
      have cv: "map_of (heap s c) key = Some (VMap v)" using Some VMap eq by simp
      have "(key, VMap v) \<in> set (heap s d)" using Some VMap by (auto dest: map_of_SomeD)
      with rk have "r v < r d" unfolding ranked_def by blast
      then have rv: "r v < n" using fuel by simp
      have inner: "finishes v v s (traverseAndUpdate n v v s)"
        using "4.IH"(8) [OF Some VMap cv refl] rk rv by simp
      show ?thesis
      proof (cases "traverseAndUpdate n v v s")
        case None
        with inner show ?thesis by (simp add: finishes_def)
      next
        case (Some out)
        show ?thesis
        proof (cases out)
          case (Panics m)
          then show ?thesis
            using \<open>map_of (heap s d) key = Some x\<close> VMap cv Some by (simp add: finishes_Panics)
        next
          case (Fatal m)
          then show ?thesis
            using \<open>map_of (heap s d) key = Some x\<close> VMap cv Some by (simp add: finishes_Fatal)
        next
          case (Returns s1)
          have "walk_ok v v s s1" using inner Some Returns by (simp add: finishes_def)
          then have ok: "walk_ok d c s s1"
            using rk rc \<open>map_of (heap s d) key = Some x\<close> VMap eq
            by (intro nested_ok [of r s c d key v]) simp_all
          then have "ranked r (heap s1)" "map_of (heap s1 c) = map_of (heap s1 d)"
            using rk ranked_kept by (auto simp: walk_ok_def)
          then have "finishes d c s1 (rangeLoop n ks d c s1)"
            using "4.IH"(9) [OF \<open>map_of (heap s d) key = Some x\<close> VMap cv refl Some Returns]
              rc fuel by simp
          then have "finishes d c s (rangeLoop n ks d c s1)"
            using ok by (rule finishes_after [rotated])
          then show ?thesis
            using \<open>map_of (heap s d) key = Some x\<close> VMap cv Some Returns by simp
        qed
      qed
    next
      case VNil
      then show ?thesis using "4.IH"(2) Some rk rc eq fuel by simp
    next
      case (VBool b)
      then show ?thesis using "4.IH"(3) Some rk rc eq fuel by simp
    next
      case (VFloat64 f)
      then show ?thesis using "4.IH"(4) Some rk rc eq fuel by simp
    next
      case (VInt i)
      then show ?thesis using "4.IH"(6) Some rk rc eq fuel by simp
    next
      case (VSlice xs)
      then show ?thesis using "4.IH"(7) Some rk rc eq fuel by simp
    qed
  qed
qed

subsection \<open>The copy\<close>

lemma heap_mapassign:
  "heap (mapassign c k v s) a = (if a = c then AList.update k v (heap s c) else heap s a)"
  by (simp add: mapassign_def)

lemma copyLoop_frame: "a \<noteq> c \<Longrightarrow> heap (copyLoop ks d c s) a = heap s a"
  by (induction ks arbitrary: s) (auto simp: heap_mapassign split: option.splits)

lemma copyLoop_map_of:
  "c \<noteq> d \<Longrightarrow>
     map_of (heap (copyLoop ks d c s) c) k =
       (if k \<in> set ks \<and> map_of (heap s d) k \<noteq> None then map_of (heap s d) k
        else map_of (heap s c) k)"
proof (induction ks arbitrary: s)
  case Nil
  then show ?case by simp
next
  case (Cons key ks)
  show ?case
  proof (cases "map_of (heap s d) key")
    case None
    then show ?thesis using Cons.IH [OF Cons.prems, of s] by auto
  next
    case (Some v)
    let ?s1 = "mapassign c key v s"
    have d: "heap ?s1 d = heap s d" using Cons.prems by (simp add: heap_mapassign)
    have c: "map_of (heap ?s1 c) = (map_of (heap s c))(key \<mapsto> v)"
      by (simp add: heap_mapassign update_conv')
    show ?thesis using Cons.IH [OF Cons.prems, of ?s1] Some by (auto simp: d c)
  qed
qed

lemma copyLoop_entries:
  "c \<noteq> d \<Longrightarrow> e \<in> set (heap (copyLoop ks d c s) c) \<Longrightarrow>
     e \<in> set (heap s c) \<or> map_of (heap s d) (fst e) = Some (snd e)"
proof (induction ks arbitrary: s)
  case Nil
  then show ?case by simp
next
  case (Cons key ks)
  show ?case
  proof (cases "map_of (heap s d) key")
    case None
    then show ?thesis using Cons.IH [OF Cons.prems(1), of s] Cons.prems(2) by simp
  next
    case (Some v)
    let ?s1 = "mapassign c key v s"
    have d: "heap ?s1 d = heap s d" using Cons.prems(1) by (simp add: heap_mapassign)
    from Cons.prems(2) Some have "e \<in> set (heap (copyLoop ks d c ?s1) c)" by simp
    from Cons.IH [OF Cons.prems(1) this]
    have "e \<in> set (heap ?s1 c) \<or> map_of (heap ?s1 d) (fst e) = Some (snd e)" .
    moreover have "heap ?s1 c = AList.update key v (heap s c)" by (simp add: heap_mapassign)
    ultimately
    have "e \<in> set (AList.update key v (heap s c)) \<or> map_of (heap s d) (fst e) = Some (snd e)"
      by (simp only: d)
    then show ?thesis using Some set_update_cases [of e key v "heap s c"] by auto
  qed
qed

lemma copyData_facts:
  assumes "copyData d s = (c, s1)" and "d < nxt s"
  shows "c = nxt s"
    and "\<And>a. a \<noteq> c \<Longrightarrow> heap s1 a = heap s a"
    and "map_of (heap s1 c) = map_of (heap s d)"
    and "\<And>e. e \<in> set (heap s1 c) \<Longrightarrow> e \<in> set (heap s d)"
proof -
  let ?s0 = "s\<lparr>heap := (heap s)(nxt s := []), nxt := Suc (nxt s)\<rparr>"
  from assms(1) have c: "c = nxt s"
    and s1: "s1 = copyLoop (map fst (heap ?s0 d)) d c ?s0"
    by (auto simp: copyData_def Let_def)
  have cd: "c \<noteq> d" using c assms(2) by simp
  have d0: "heap ?s0 d = heap s d" using cd c by simp
  show "c = nxt s" by (rule c)
  show "heap s1 a = heap s a" if "a \<noteq> c" for a
    using that c by (simp add: s1 copyLoop_frame)
  show "map_of (heap s1 c) = map_of (heap s d)"
  proof
    fix k
    have "map_of (heap s d) k = None" if "k \<notin> fst ` set (heap s d)"
      using that by (simp add: map_of_eq_None_iff)
    then show "map_of (heap s1 c) k = map_of (heap s d) k"
      unfolding s1 copyLoop_map_of [OF cd] d0 using c by auto
  qed
  show "e \<in> set (heap s d)" if "e \<in> set (heap s1 c)" for e
  proof -
    from that have "e \<in> set (heap ?s0 c) \<or> map_of (heap ?s0 d) (fst e) = Some (snd e)"
      unfolding s1 by (rule copyLoop_entries [OF cd])
    then have "map_of (heap s d) (fst e) = Some (snd e)" using c d0 by simp
    then show ?thesis using map_of_SomeD by fastforce
  qed
qed

lemma copyData_ready:
  assumes "ranked r (heap s)" and "allocated s d" and "copyData d s = (c, s1)"
  shows "ranked (r(c := r d)) (heap s1)"
    and "map_of (heap s1 c) = map_of (heap s1 d)"
    and "c \<noteq> d"
proof -
  from assms(2) have dn: "d < nxt s"
    and refs: "\<And>a k b. (k, VMap b) \<in> set (heap s a) \<Longrightarrow> b < nxt s"
    by (auto simp: allocated_def)
  note f = copyData_facts [OF assms(3) dn]
  show cd: "c \<noteq> d" using f(1) dn by simp
  show "map_of (heap s1 c) = map_of (heap s1 d)" using f(2) [of d] f(3) cd by simp
  show "ranked (r(c := r d)) (heap s1)"
    unfolding ranked_def
  proof (intro allI impI)
    fix a k b
    assume e: "(k, VMap b) \<in> set (heap s1 a)"
    have old: "(k, VMap b) \<in> set (heap s (if a = c then d else a))"
      using e f(2) [of a] f(4) by (cases "a = c") auto
    then have "b \<noteq> c" using refs f(1) by fastforce
    moreover have "r b < r (if a = c then d else a)"
      using old assms(1) unfolding ranked_def by blast
    ultimately show "(r(c := r d)) b < (r(c := r d)) a" by auto
  qed
qed

lemma walk_after_copy:
  assumes "ranked r (heap s)" and "allocated s d" and "copyData d s = (c, s1)" and "r d < n"
  shows "finishes d c s1 (traverseAndUpdate n d c s1)"
proof -
  note c = copyData_ready [OF assms(1-3)]
  show ?thesis
    by (rule walk_finishes(1) [of "r(c := r d)"]) (use c assms(4) in simp_all)
qed

subsection \<open>The pipeline on a document\<close>

lemma traverseAndUpdate_numeral:
  "traverseAndUpdate (numeral k) d c s = rangeLoop (pred_numeral k) (map fst (heap s d)) d c s"
  by (simp add: numeral_eq_Suc)

lemma traverseAndUpdate_1:
  "traverseAndUpdate 1 d c s = rangeLoop 0 (map fst (heap s d)) d c s"
  by (metis One_nat_def traverseAndUpdate.simps(2))

lemmas eval_walk = copyData_def Let_def state0_def heap0_def mapassign_def parseAndUpdate_def
  getUpdater_def updaters_def colorize_def world0_def traverseAndUpdate_numeral traverseAndUpdate_1

lemma copy0: "copyData 0 state0 = (3, state0\<lparr>heap := heap0(3 := heap0 0), nxt := 4\<rparr>)"
  by (simp add: copyData_def Let_def state0_def heap0_def mapassign_def)

lemma ranked0: "ranked rank0 (heap state0)"
  by (auto simp: ranked_def state0_def heap0_def rank0_def split: if_splits)

lemma allocated0: "allocated state0 0"
  by (auto simp: allocated_def state0_def heap0_def split: if_splits)

lemma walk0:
  "\<exists>s2. traverseAndUpdate 2 0 3 (state0\<lparr>heap := heap0(3 := heap0 0), nxt := 4\<rparr>) = Some (Returns s2)
     \<and> heap s2 0 = [(''id'', VString ''123e4567-e89b-42d3-a456-426614174000''),
                      (''count'', VFloat64 0x401C000000000000), (''a'', VMap 1),
                      (''tags'', VSlice [VString ''$UUID'', VMap 2])]
     \<and> heap s2 3 = heap s2 0
     \<and> heap s2 1 = [(''b'', VString ''$INT(10:1)''), (''n'', VInt 6)]
     \<and> heap s2 2 = [(''t'', VString ''$UUID'')]
     \<and> length (stdout s2) = 1"
  by (simp add: eval_walk eval_defs)

text \<open>
  Claim C8. Let \<open>c\<close> be the working copy that \<^verbatim>\<open>copyData\<close> makes of a document \<open>d\<close>
  whose maps are well-founded under nesting. With fuel above the rank of \<open>d\<close> the walk
  over \<open>d\<close> and \<open>c\<close> ends, and when it returns, the working copy and the document hold
  the same value at every key; nested maps are the same objects in both, so they agree at
  every depth. Every substitution step that returns has either left the store as it was or
  written one and the same value at its key into both maps.
\<close>

theorem working_copy_agrees:
  assumes "ranked r (heap s)" and "allocated s d" and "copyData d s = (c, s1)" and "r d < n"
  shows "(\<exists>out. traverseAndUpdate n d c s1 = Some out
            \<and> (\<forall>s2. out = Returns s2 \<longrightarrow> map_of (heap s2 c) = map_of (heap s2 d)))
     \<and> (\<forall>key value t t'. parseAndUpdate key value d c t = Returns t' \<longrightarrow>
            heap t' = heap t
            \<or> (\<exists>nv. map_of (heap t' d) key = Some nv \<and> map_of (heap t' c) key = Some nv))"
proof (intro conjI allI impI)
  from walk_after_copy [OF assms]
  show "\<exists>out. traverseAndUpdate n d c s1 = Some out
            \<and> (\<forall>s2. out = Returns s2 \<longrightarrow> map_of (heap s2 c) = map_of (heap s2 d))"
    unfolding finishes_def walk_ok_def by blast
next
  fix key tok t t'
  assume "parseAndUpdate key tok d c t = Returns t'"
  from parseAndUpdate_cases [OF this]
  show "heap t' = heap t
          \<or> (\<exists>nv. map_of (heap t' d) key = Some nv \<and> map_of (heap t' c) key = Some nv)"
  proof
    assume "heap t' = heap t"
    then show ?thesis by simp
  next
    assume "\<exists>nv. isGenerated nv \<and> getUpdater tok \<noteq> None
           \<and> (\<forall>a. heap t' a = (if a = c then AList.update key nv (heap t c)
                                else if a = d then AList.update key nv (heap t d)
                                else heap t a))"
    then obtain nv where h: "\<And>a. heap t' a = (if a = c then AList.update key nv (heap t c)
                                else if a = d then AList.update key nv (heap t d)
                                else heap t a)"
      by blast
    have "map_of (heap t' d) key = Some nv" "map_of (heap t' c) key = Some nv"
      by (simp_all add: h update_conv')
    then show ?thesis by blast
  qed
qed

theorem working_copy_agrees_witness:
  "\<exists>s2. traverseAndUpdate 2 0 3 (snd (copyData 0 state0)) = Some (Returns s2)
     \<and> map_of (heap s2 3) = map_of (heap s2 0)
     \<and> map_of (heap s2 3) ''id'' = Some (VString ''123e4567-e89b-42d3-a456-426614174000'')
     \<and> map_of (heap s2 1) ''n'' = Some (VInt 6)"
proof -
  have r: "rank0 0 < 2" by (simp add: rank0_def)
  have c: "copyData 0 state0 = (3, snd (copyData 0 state0))" by (simp add: copy0)
  from working_copy_agrees [OF ranked0 allocated0 c r]
  have "\<exists>out. traverseAndUpdate 2 0 3 (snd (copyData 0 state0)) = Some out
            \<and> (\<forall>s2. out = Returns s2 \<longrightarrow> map_of (heap s2 3) = map_of (heap s2 0))"
    by blast
  moreover from walk0 obtain s2
    where "traverseAndUpdate 2 0 3 (snd (copyData 0 state0)) = Some (Returns s2)"
      and "heap s2 0 = [(''id'', VString ''123e4567-e89b-42d3-a456-426614174000''),
                      (''count'', VFloat64 0x401C000000000000), (''a'', VMap 1),
                      (''tags'', VSlice [VString ''$UUID'', VMap 2])]"
      and "heap s2 3 = heap s2 0"
      and "heap s2 1 = [(''b'', VString ''$INT(10:1)''), (''n'', VInt 6)]"
    unfolding copy0 by auto
  ultimately show ?thesis by auto
qed

text \<open>
  Claim C1. Let \<open>d\<close> be a document whose maps are well-founded under nesting, a finite
  tree, and \<open>c\<close> the copy \<^verbatim>\<open>copyData\<close> makes of it. With fuel above the rank of \<open>d\<close>
  the walk over \<open>d\<close> and \<open>c\<close> ends, and when it returns it has kept the shape of every
  map of the store: the keys of each map, in their order, are the same as before, and each
  entry holds the value it held before, unless that value was a string the matcher
  recognises by its prefix, which may have become a generated \<^verbatim>\<open>int\<close> or
  \<^verbatim>\<open>string\<close>. So numbers, booleans, \<^verbatim>\<open>nil\<close>, slices with all their elements, and the
  references to nested maps are untouched. A map that the walk cannot reach through map
  entries, such as a map that is an element of a slice, is left exactly as it was.
\<close>

theorem walk_keeps_shape:
  assumes "ranked r (heap s)" and "allocated s d" and "copyData d s = (c, s1)" and "r d < n"
  shows "\<exists>out. traverseAndUpdate n d c s1 = Some out
           \<and> (\<forall>s2. out = Returns s2 \<longrightarrow>
                 store_kept (heap s1) (heap s2)
                 \<and> (\<forall>a. map fst (heap s2 a) = map fst (heap s1 a))
                 \<and> (\<forall>a. a \<notin> walked (heap s1) d \<longrightarrow> a \<noteq> c \<longrightarrow> heap s2 a = heap s1 a))"
proof -
  from walk_after_copy [OF assms] obtain out
    where out: "traverseAndUpdate n d c s1 = Some out"
      and ok: "\<And>s2. out = Returns s2 \<Longrightarrow> walk_ok d c s1 s2"
    unfolding finishes_def by blast
  have "store_kept (heap s1) (heap s2)
          \<and> (\<forall>a. map fst (heap s2 a) = map fst (heap s1 a))
          \<and> (\<forall>a. a \<notin> walked (heap s1) d \<longrightarrow> a \<noteq> c \<longrightarrow> heap s2 a = heap s1 a)"
    if "out = Returns s2" for s2
  proof -
    from ok [OF that] have k: "store_kept (heap s1) (heap s2)"
      and f: "\<forall>a. a \<notin> walked (heap s1) d \<longrightarrow> a \<noteq> c \<longrightarrow> heap s2 a = heap s1 a"
      by (simp_all add: walk_ok_def)
    from k have "\<forall>a. map fst (heap s2 a) = map fst (heap s1 a)"
      by (simp add: store_kept_def shape_kept_keys)
    with k f show ?thesis by blast
  qed
  with out show ?thesis by blast
qed

theorem walk_keeps_shape_witness:
  "\<exists>s2. traverseAndUpdate 2 0 3 (snd (copyData 0 state0)) = Some (Returns s2)
     \<and> map fst (heap s2 0) = [''id'', ''count'', ''a'', ''tags'']
     \<and> map fst (heap s2 1) = [''b'', ''n'']
     \<and> map_of (heap s2 0) ''count'' = Some (VFloat64 0x401C000000000000)
     \<and> map_of (heap s2 0) ''a'' = Some (VMap 1)
     \<and> map_of (heap s2 0) ''tags'' = Some (VSlice [VString ''$UUID'', VMap 2])
     \<and> map_of (heap s2 1) ''b'' = Some (VString ''$INT(10:1)'')
     \<and> heap s2 2 = [(''t'', VString ''$UUID'')]"
proof -
  have r: "rank0 0 < 2" by (simp add: rank0_def)
  have c: "copyData 0 state0 = (3, snd (copyData 0 state0))" by (simp add: copy0)
  from walk_keeps_shape [OF ranked0 allocated0 c r]
  have "\<exists>out. traverseAndUpdate 2 0 3 (snd (copyData 0 state0)) = Some out
            \<and> (\<forall>s2. out = Returns s2 \<longrightarrow>
                  (\<forall>a. map fst (heap s2 a) = map fst (heap (snd (copyData 0 state0)) a)))"
    by blast
  moreover have "map fst (heap (snd (copyData 0 state0)) 0) = [''id'', ''count'', ''a'', ''tags'']"
    "map fst (heap (snd (copyData 0 state0)) 1) = [''b'', ''n'']"
    unfolding copy0 by (simp_all add: state0_def heap0_def)
  moreover from walk0 obtain s2
    where "traverseAndUpdate 2 0 3 (snd (copyData 0 state0)) = Some (Returns s2)"
      and "heap s2 0 = [(''id'', VString ''123e4567-e89b-42d3-a456-426614174000''),
                      (''count'', VFloat64 0x401C000000000000), (''a'', VMap 1),
                      (''tags'', VSlice [VString ''$UUID'', VMap 2])]"
      and "heap s2 1 = [(''b'', VString ''$INT(10:1)''), (''n'', VInt 6)]"
      and "heap s2 2 = [(''t'', VString ''$UUID'')]"
    unfolding copy0 by auto
  ultimately show ?thesis by auto
qed





end
